theory Spec2Isabelle
  imports Main "HOL-Library.AList" "HOL-Library.Sublist"
begin

section \<open>Characters and strings as Python sees them\<close>

text \<open>
  A Python \<open>str\<close> is modelled as a \<^typ>\<open>string\<close>; a \<^typ>\<open>char\<close> stands for the code
  point of the same value (0 to 255). The classes below are the ones Python uses on that
  range: \<open>str.isspace\<close> and the regex class \<open>\s\<close> agree (tab to carriage return, the
  four separators 28 to 31, space, NEL and the no-break space); \<open>\d\<close> is \<open>0\<close> to
  \<open>9\<close>; \<open>str.isdigit\<close> also accepts the superscripts 178, 179 and 185.
\<close>

definition code :: "char \<Rightarrow> int" where
  "code c = of_char c"

definition isspace :: "char \<Rightarrow> bool" where
  "isspace c = (let n = code c in
     (9 \<le> n \<and> n \<le> 13) \<or> (28 \<le> n \<and> n \<le> 32) \<or> n = 133 \<or> n = 160)"

definition re_digit :: "char \<Rightarrow> bool" where
  "re_digit c = (let n = code c in 48 \<le> n \<and> n \<le> 57)"

definition isdigit_char :: "char \<Rightarrow> bool" where
  "isdigit_char c = (let n = code c in
     (48 \<le> n \<and> n \<le> 57) \<or> n = 178 \<or> n = 179 \<or> n = 185)"

text \<open>\<open>str.isdigit\<close>: every character is a digit and there is at least one.\<close>

definition isdigit :: "string \<Rightarrow> bool" where
  "isdigit s = (s \<noteq> [] \<and> list_all isdigit_char s)"

definition lower :: "char \<Rightarrow> char" where
  "lower c = (let n = code c in
     if (65 \<le> n \<and> n \<le> 90) \<or> (192 \<le> n \<and> n \<le> 222 \<and> n \<noteq> 215)
     then char_of (n + 32) else c)"

definition upper :: "char \<Rightarrow> char" where
  "upper c = (let n = code c in
     if (97 \<le> n \<and> n \<le> 122) \<or> (224 \<le> n \<and> n \<le> 254 \<and> n \<noteq> 247)
     then char_of (n - 32) else c)"

text \<open>\<open>s.strip()\<close>, \<open>s.lstrip()\<close>, \<open>s.rstrip()\<close> with no argument.\<close>

definition lstrip :: "string \<Rightarrow> string" where
  "lstrip s = dropWhile isspace s"

definition rstrip :: "string \<Rightarrow> string" where
  "rstrip s = rev (dropWhile isspace (rev s))"

definition strip :: "string \<Rightarrow> string" where
  "strip s = rstrip (lstrip s)"

text \<open>\<open>s.startswith(p)\<close> and \<open>sub in s\<close> on strings.\<close>

fun startswith :: "string \<Rightarrow> string \<Rightarrow> bool" where
  "startswith [] s = True"
| "startswith (p # ps) [] = False"
| "startswith (p # ps) (x # xs) = (p = x \<and> startswith ps xs)"

fun contains :: "string \<Rightarrow> string \<Rightarrow> bool" where
  "contains sub [] = (sub = [])"
| "contains sub (x # xs) = (startswith sub (x # xs) \<or> contains sub xs)"

text \<open>
  \<open>s.replace(old, new)\<close> for a non-empty \<open>old\<close>: occurrences are replaced from the left,
  without overlap.
\<close>

fun replace :: "string \<Rightarrow> string \<Rightarrow> string \<Rightarrow> string" where
  "replace old new [] = []"
| "replace old new (x # xs) =
     (if old \<noteq> [] \<and> startswith old (x # xs)
      then new @ replace old new (drop (length old) (x # xs))
      else x # replace old new xs)"

text \<open>\<open>s.split("\n")\<close> and \<open>"\n".join(ls)\<close>.\<close>

fun split_lines :: "string \<Rightarrow> string list" where
  "split_lines [] = [[]]"
| "split_lines (x # xs) =
     (if x = CHR 0x0A then [] # split_lines xs
      else (case split_lines xs of l # ls \<Rightarrow> (x # l) # ls | [] \<Rightarrow> [[x]]))"

fun join_lines :: "string list \<Rightarrow> string" where
  "join_lines [] = []"
| "join_lines [l] = l"
| "join_lines (l # ls) = l @ CHR 0x0A # join_lines ls"

text \<open>
  Citation numbers come out of \<open>\d+\<close> or out of \<open>range(1, n)\<close>, so they are never
  negative and are modelled as \<^typ>\<open>nat\<close>. \<open>int(s)\<close> on a string of decimal digits, and
  the decimal text an f-string gives a number.
\<close>

definition digit_val :: "char \<Rightarrow> nat" where
  "digit_val c = nat (code c - 48)"

definition int_of_str :: "string \<Rightarrow> nat" where
  "int_of_str s = foldl (\<lambda>acc c. 10 * acc + digit_val c) 0 s"

definition digit_chr :: "nat \<Rightarrow> char" where
  "digit_chr d = char_of (48 + d)"

function str_of_nat :: "nat \<Rightarrow> string" where
  "str_of_nat n = (if n < 10 then [digit_chr n] else str_of_nat (n div 10) @ [digit_chr (n mod 10)])"
  by pat_completeness auto
termination
  by (relation "measure id") auto

declare str_of_nat.simps [simp del]

section \<open>The regular expressions of the program\<close>

text \<open>
  The patterns of the program use literals, \<open>.\<close>, character sets, the classes \<open>\s\<close> and
  \<open>\d\<close>, greedy and lazy repetition of a single-character item, \<open>?\<close>, concatenation,
  alternation, capture groups, a lookahead, \<open>\Z\<close> and \<open>$\<close>. The matcher below is a
  backtracking matcher for exactly these forms, with Python's priorities: a greedy
  repetition tries the longest run first, a lazy one the shortest, an alternation its left
  branch first, and the first complete match wins.
\<close>

datatype cset = CChr char | CRange char char | CSpace | CDigit

datatype atom = Lit char | Dot | In "cset list" | NotIn "cset list"

datatype regex =
    A atom
  | Star atom
  | StarLazy atom
  | Plus atom
  | PlusLazy atom
  | Opt regex
  | Seq regex regex
  | Alt regex regex
  | Grp nat regex
  | Look regex
  | EndZ
  | Dollar

record flags =
  ignorecase :: bool
  dotall :: bool

definition no_flags :: flags where
  "no_flags = \<lparr>ignorecase = False, dotall = False\<rparr>"

definition flags_S :: flags where
  "flags_S = \<lparr>ignorecase = False, dotall = True\<rparr>"

definition flags_IS :: flags where
  "flags_IS = \<lparr>ignorecase = True, dotall = True\<rparr>"

fun in_cset :: "cset \<Rightarrow> char \<Rightarrow> bool" where
  "in_cset (CChr a) c = (c = a)"
| "in_cset (CRange a b) c = (code a \<le> code c \<and> code c \<le> code b)"
| "in_cset CSpace c = isspace c"
| "in_cset CDigit c = re_digit c"

definition in_csets :: "bool \<Rightarrow> cset list \<Rightarrow> char \<Rightarrow> bool" where
  "in_csets ic cs c =
     (list_ex (\<lambda>x. in_cset x c) cs \<or>
      (ic \<and> (list_ex (\<lambda>x. in_cset x (lower c)) cs \<or> list_ex (\<lambda>x. in_cset x (upper c)) cs)))"

fun atom_ok :: "flags \<Rightarrow> atom \<Rightarrow> char \<Rightarrow> bool" where
  "atom_ok f (Lit a) c = (if ignorecase f then lower c = lower a else c = a)"
| "atom_ok f Dot c = (dotall f \<or> c \<noteq> CHR 0x0A)"
| "atom_ok f (In cs) c = in_csets (ignorecase f) cs c"
| "atom_ok f (NotIn cs) c = (\<not> in_csets (ignorecase f) cs c)"

text \<open>
  What is still to be matched is a list of items: patterns, and the ends of the groups that
  are open, each with the text that was left when the group was entered.
\<close>

datatype item = R regex | Close nat string

fun weight :: "regex \<Rightarrow> nat" where
  "weight (A a) = 1"
| "weight (Star a) = 1"
| "weight (StarLazy a) = 1"
| "weight (Plus a) = 3"
| "weight (PlusLazy a) = 3"
| "weight (Opt r) = 1 + weight r"
| "weight (Seq r1 r2) = 1 + weight r1 + weight r2"
| "weight (Alt r1 r2) = 1 + weight r1 + weight r2"
| "weight (Grp i r) = 2 + weight r"
| "weight (Look r) = 1 + weight r"
| "weight EndZ = 1"
| "weight Dollar = 1"

fun iweight :: "item \<Rightarrow> nat" where
  "iweight (R r) = weight r"
| "iweight (Close i s) = 1"

text \<open>
  \<open>m f k s c\<close> matches the items \<open>k\<close> against the text \<open>s\<close> with the captures \<open>c\<close> so far
  and returns the text left over and the captures of the first complete match.
\<close>

function m :: "flags \<Rightarrow> item list \<Rightarrow> string \<Rightarrow> string list \<Rightarrow> (string \<times> string list) option" where
  "m f [] s c = Some (s, c)"
| "m f (Close i s0 # k) s c = m f k s (c[i := take (length s0 - length s) s0])"
| "m f (R (A a) # k) [] c = None"
| "m f (R (A a) # k) (x # xs) c = (if atom_ok f a x then m f k xs c else None)"
| "m f (R (Star a) # k) [] c = m f k [] c"
| "m f (R (Star a) # k) (x # xs) c =
     (if atom_ok f a x
      then (case m f (R (Star a) # k) xs c of Some r \<Rightarrow> Some r | None \<Rightarrow> m f k (x # xs) c)
      else m f k (x # xs) c)"
| "m f (R (StarLazy a) # k) [] c = m f k [] c"
| "m f (R (StarLazy a) # k) (x # xs) c =
     (case m f k (x # xs) c of
        Some r \<Rightarrow> Some r
      | None \<Rightarrow> (if atom_ok f a x then m f (R (StarLazy a) # k) xs c else None))"
| "m f (R (Plus a) # k) s c = m f (R (A a) # R (Star a) # k) s c"
| "m f (R (PlusLazy a) # k) s c = m f (R (A a) # R (StarLazy a) # k) s c"
| "m f (R (Opt r) # k) s c =
     (case m f (R r # k) s c of Some r \<Rightarrow> Some r | None \<Rightarrow> m f k s c)"
| "m f (R (Seq r1 r2) # k) s c = m f (R r1 # R r2 # k) s c"
| "m f (R (Alt r1 r2) # k) s c =
     (case m f (R r1 # k) s c of Some r \<Rightarrow> Some r | None \<Rightarrow> m f (R r2 # k) s c)"
| "m f (R (Grp i r) # k) s c = m f (R r # Close i s # k) s c"
| "m f (R (Look r) # k) s c =
     (case m f [R r] s c of Some r \<Rightarrow> m f k s c | None \<Rightarrow> None)"
| "m f (R EndZ # k) s c = (if s = [] then m f k s c else None)"
| "m f (R Dollar # k) s c = (if s = [] \<or> s = [CHR 0x0A] then m f k s c else None)"
  by pat_completeness auto
termination
  by (relation "measures [\<lambda>(f, k, s, c). sum_list (map iweight k), \<lambda>(f, k, s, c). length s]") auto

text \<open>Concatenation of several patterns, and the number of the last group of a pattern.\<close>

fun cat :: "regex list \<Rightarrow> regex" where
  "cat [r] = r"
| "cat (r # rs) = Seq r (cat rs)"
| "cat [] = Opt EndZ"

fun lit :: "string \<Rightarrow> regex list" where
  "lit s = map (\<lambda>c. A (Lit c)) s"

fun groups :: "regex \<Rightarrow> nat" where
  "groups (Opt r) = groups r"
| "groups (Seq r1 r2) = max (groups r1) (groups r2)"
| "groups (Alt r1 r2) = max (groups r1) (groups r2)"
| "groups (Grp i r) = max i (groups r)"
| "groups (Look r) = groups r"
| "groups _ = 0"

text \<open>
  A match at the start of \<open>s\<close>: the text left over and the captures, group 0 being the whole
  match. A group that takes no part in the match is the empty string, as \<open>findall\<close> gives it.
\<close>

definition match_at :: "flags \<Rightarrow> regex \<Rightarrow> string \<Rightarrow> (string \<times> string list) option" where
  "match_at f r s = m f [R (Grp 0 r)] s (replicate (Suc (groups r)) [])"

text \<open>
  \<open>re.search\<close>: the leftmost match. The result is the text before the match, the captures
  and the text after the match. None of the patterns looks behind, so a match depends on
  the text from its start only.
\<close>

fun search :: "flags \<Rightarrow> regex \<Rightarrow> string \<Rightarrow> (string \<times> string list \<times> string) option" where
  "search f r [] =
     (case match_at f r [] of Some (rest, c) \<Rightarrow> Some ([], c, rest) | None \<Rightarrow> None)"
| "search f r (x # xs) =
     (case match_at f r (x # xs) of
        Some (rest, c) \<Rightarrow> Some ([], c, rest)
      | None \<Rightarrow>
          (case search f r xs of
             Some (pre, c, rest) \<Rightarrow> Some (x # pre, c, rest)
           | None \<Rightarrow> None))"

text \<open>
  \<open>re.findall\<close>: the captures of the successive matches, from left to right. The scan goes
  on behind a match, and one character further on after an empty match (every pattern of
  the program takes at least one character).
\<close>

function findall :: "flags \<Rightarrow> regex \<Rightarrow> string \<Rightarrow> string list list" where
  "findall f r s =
     (case search f r s of
        None \<Rightarrow> []
      | Some (pre, c, rest) \<Rightarrow>
          c # (if c ! 0 \<noteq> [] \<and> length rest < length s then findall f r rest
               else if c ! 0 = [] \<and> rest \<noteq> [] \<and> length (tl rest) < length s
               then findall f r (tl rest)
               else []))"
  by pat_completeness auto
termination
  by (relation "measure (\<lambda>(f, r, s). length s)") auto

declare findall.simps [simp del]

text \<open>
  \<open>re.sub\<close> with a replacement that is computed from the captures: the text between the
  matches stays, each match gives way to its replacement.
\<close>

function sub :: "flags \<Rightarrow> regex \<Rightarrow> (string list \<Rightarrow> string) \<Rightarrow> string \<Rightarrow> string" where
  "sub f r repl s =
     (case search f r s of
        None \<Rightarrow> s
      | Some (pre, c, rest) \<Rightarrow>
          pre @ repl c @
          (if c ! 0 \<noteq> [] \<and> length rest < length s then sub f r repl rest
           else if c ! 0 = [] \<and> rest \<noteq> [] \<and> length (tl rest) < length s
           then hd rest # sub f r repl (tl rest)
           else rest))"
  by pat_completeness auto
termination
  by (relation "measure (\<lambda>(f, r, repl, s). length s)") auto

declare sub.simps [simp del]

section \<open>The patterns\<close>

abbreviation nl :: char where "nl \<equiv> CHR 0x0A"
abbreviation cr :: char where "cr \<equiv> CHR 0x0D"
abbreviation ws :: atom where "ws \<equiv> In [CSpace]"
abbreviation non_ws :: atom where "non_ws \<equiv> NotIn [CSpace]"
abbreviation digit :: atom where "digit \<equiv> In [CDigit]"
abbreviation not_rbracket :: atom where "not_rbracket \<equiv> NotIn [CChr CHR '']'']"
abbreviation not_colon :: atom where "not_colon \<equiv> NotIn [CChr CHR '':'']"
abbreviation upper_AZ :: atom where "upper_AZ \<equiv> In [CRange CHR ''A'' CHR ''Z'']"
abbreviation lower_az :: atom where "lower_az \<equiv> In [CRange CHR ''a'' CHR ''z'']"

text \<open>\<open>https?://[^\s]+\<close>\<close>

definition url_items :: "regex list" where
  "url_items = lit ''http'' @ [Opt (A (Lit CHR ''s''))] @ lit ''://'' @ [Plus non_ws]"

text \<open>\<open>\[(\d+)\]\s*\[([^\]]+)\]\s*\<close>, and the same with the number written out.\<close>

definition head_any :: "regex list" where
  "head_any = lit ''['' @ [Grp 1 (Plus digit)] @ lit '']'' @ [Star ws] @
     lit ''['' @ [Grp 2 (Plus not_rbracket)] @ lit '']'' @ [Star ws]"

definition head_num :: "nat \<Rightarrow> regex list" where
  "head_num n = lit (''['' @ str_of_nat n @ '']'') @ [Star ws] @
     lit ''['' @ [Grp 1 (Plus not_rbracket)] @ lit '']'' @ [Star ws]"

text \<open>\<open>\n\s*\n\s*\n+\<close>, \<open>([a-z])([A-Z])\<close>, \<open>([.!?])([A-Z])\<close> and
  \<open>\[(\d+)\]\s*\[([^\]]+)\]\s*([^:]+):\s*(https?://[^\s]+)\<close> of \<open>clean_text\<close>.\<close>

definition blank_lines_pattern :: regex where
  "blank_lines_pattern = cat [A (Lit nl), Star ws, A (Lit nl), Star ws, Plus (Lit nl)]"

definition camel_pattern :: regex where
  "camel_pattern = cat [Grp 1 (A lower_az), Grp 2 (A upper_AZ)]"

definition sentence_pattern :: regex where
  "sentence_pattern =
     cat [Grp 1 (A (In [CChr CHR ''.'', CChr CHR ''!'', CChr CHR ''?''])), Grp 2 (A upper_AZ)]"

definition citation_format_pattern :: regex where
  "citation_format_pattern =
     cat (head_any @ [Grp 3 (Plus not_colon)] @ lit '':'' @ [Star ws, Grp 4 (cat url_items)])"

text \<open>\<open>References\s*\n(.*)\<close> and \<open>REFERENCES\s*\n(.*)\<close> of
  \<open>find_references_section\<close>.\<close>

definition references_patterns :: "regex list" where
  "references_patterns =
     [cat (lit ''References'' @ [Star ws, A (Lit nl), Grp 1 (Star Dot)]),
      cat (lit ''REFERENCES'' @ [Star ws, A (Lit nl), Grp 1 (Star Dot)])]"

text \<open>\<open>\[{citation_num}\]\<close> of \<open>count_citation_occurrences\<close>.\<close>

definition occurrence_pattern :: "nat \<Rightarrow> regex" where
  "occurrence_pattern citation_num = cat (lit (''['' @ str_of_nat citation_num @ '']''))"

text \<open>The tail \<open>:\s*(.*?)(?=\n\[|\Z)\<close> with the URL in group \<open>g\<close>.\<close>

definition lazy_tail :: "nat \<Rightarrow> regex list" where
  "lazy_tail g = lit '':'' @ [Star ws, Grp g (StarLazy Dot),
     Look (Alt (cat (lit (nl # ''[''))) EndZ)]"

text \<open>\<open>\[(\d+)\]\s*\[([^\]]+)\]\s*([^:]+?):\s*(.*?)(?=\n\[|\Z)\<close> and
  \<open>\[15\]\s*\[([^\]]+)\]\s*([^:]+?):\s*(.*?)(?=\n\[|\Z)\<close>.\<close>

definition citation_pattern :: regex where
  "citation_pattern = cat (head_any @ [Grp 3 (PlusLazy not_colon)] @ lazy_tail 4)"

definition test_pattern :: regex where
  "test_pattern = cat (head_num 15 @ [Grp 2 (PlusLazy not_colon)] @ lazy_tail 3)"

text \<open>\<open>\s+\<close>, \<open>(https?://[^\s]+)\<close> and \<open>\[(\d+)\]\<close>.\<close>

definition spaces_pattern :: regex where
  "spaces_pattern = Plus ws"

definition url_pattern :: regex where
  "url_pattern = Grp 1 (cat url_items)"

definition bracket_pattern :: regex where
  "bracket_pattern = cat (lit ''['' @ [Grp 1 (Plus digit)] @ lit '']'')"

text \<open>
  The four context patterns of the gap filler for the number \<open>n\<close>:
  \<open>\[n\]\s*\[([^\]]+)\]\s*([^:]+):\s*(https?://[^\s]+)\<close>,
  \<open>\[n\]\s*\[([^\]]+)\]\s*(.+?)\n(https?://[^\s]+)\<close>,
  \<open>\[n\]\s*\[([^\]]+)\]\s*([^:]+):\s*$\<close> and
  \<open>\[n\]\s*\[([^\]]+)\]\s*(.+?)(?:\s*https?://[^\s\)]+)?\<close>.
\<close>

definition citation_context_patterns :: "nat \<Rightarrow> regex list" where
  "citation_context_patterns n =
     [cat (head_num n @ [Grp 2 (Plus not_colon)] @ lit '':'' @ [Star ws, Grp 3 (cat url_items)]),
      cat (head_num n @ [Grp 2 (PlusLazy Dot), A (Lit nl), Grp 3 (cat url_items)]),
      cat (head_num n @ [Grp 2 (Plus not_colon)] @ lit '':'' @ [Star ws, Dollar]),
      cat (head_num n @ [Grp 2 (PlusLazy Dot),
        Opt (cat ([Star ws] @ lit ''http'' @ [Opt (A (Lit CHR ''s''))] @ lit ''://'' @
          [Plus (NotIn [CSpace, CChr CHR '')''])]))])]"

text \<open>\<open>\[n\]\s*\[([^\]]+)\]\s*([^:]+):\s*\n\s*(https?://[^\s]+)\<close> and
  \<open>\[n\]\s*\[([^\]]+)\]\s*([^:]+):\s*\n(https?://[^\s]+)\<close>.\<close>

definition next_line_pattern :: "nat \<Rightarrow> regex" where
  "next_line_pattern n =
     cat (head_num n @ [Grp 2 (Plus not_colon)] @ lit '':'' @
       [Star ws, A (Lit nl), Star ws, Grp 3 (cat url_items)])"

definition simple_pattern :: "nat \<Rightarrow> regex" where
  "simple_pattern n =
     cat (head_num n @ [Grp 2 (Plus not_colon)] @ lit '':'' @
       [Star ws, A (Lit nl), Grp 3 (cat url_items)])"

section \<open>The program\<close>

subsection \<open>Classification\<close>

definition get_sql_urls :: "string list" where
  "get_sql_urls =
   [''https://dashboard.msme.gov.in/Udyam_Statewise.aspx'',
    ''https://data.adb.org/dataset/2023-asia-small-and-medium-sized-enterprise-monitor'',
    ''https://data.adb.org/media/10421/download'',
    ''https://data.rbi.org.in/#/dbie/indicators'',
    ''https://eaindustry.nic.in/download_data_1112.asp'',
    ''https://esankhyiki.mospi.gov.in/'',
    ''https://esankhyiki.mospi.gov.in/catalogue-main/catalogue?index=&page=0&product=NAS'',
    ''https://esankhyiki.mospi.gov.in/catalogue-main/catalogue?page=0&search=&product=NAS&q=NSDP'',
    ''https://esankhyiki.mospi.gov.in/macroindicators-main/macroindicators?product=asi'',
    ''https://esankhyiki.mospi.gov.in/macroindicators-main/macroindicators?product=asuse'',
    ''https://esankhyiki.mospi.gov.in/macroindicators-main/macroindicators?product=nss77&tab=table'',
    ''https://esankhyiki.mospi.gov.in/macroindicators-main/macroindicators?product=nss78'',
    ''https://esankhyiki.mospi.gov.in/macroindicators-main/macroindicators?product=plfs'',
    ''https://esankhyiki.mospi.gov.in/macroindicators?product=cpi'',
    ''https://labourbureau.gov.in/uploads/public/notice/MIL-07-2024pdf-bd246163a1b7f2b4515a6eedd5df650d.pdf'',
    ''https://mospi.gov.in/GSVA-NSVA'',
    ''https://niryat.gov.in/india'',
    ''https://residex.nhbonline.org.in/'',
    ''https://www.data.gov.in/resource/kisan-call-centre-kcc-transcripts-farmers-queries-answers'',
    ''https://www.gst.gov.in/download/gststatistics'',
    ''https://www.indiabudget.gov.in/budget2022-23/economicsurvey/doc/stat/tab43.pdf'',
    ''https://www.indiabudget.gov.in/economicsurvey/doc/Statistical-Appendix-in-English.pdf'',
    ''https://www.niftyindices.com/indices/equity/thematic-indices/nifty-sme-emerge'',
    ''https://www.rbi.org.in/scripts/Data_Sectoral_Deployment.aspx'']"

definition classify_citation_type :: "string \<Rightarrow> string" where
  "classify_citation_type citation_url =
     (if citation_url = [] then ''Vector''
      else if citation_url \<in> set get_sql_urls then ''SQL'' else ''Vector'')"

subsection \<open>Text cleaning\<close>

definition clean_text :: "string \<Rightarrow> string" where
  "clean_text text =
     (let text = sub no_flags blank_lines_pattern (\<lambda>c. [nl, nl]) text;
          text = sub no_flags camel_pattern (\<lambda>c. c ! 1 @ '' '' @ c ! 2) text;
          text = sub no_flags sentence_pattern (\<lambda>c. c ! 1 @ '' '' @ c ! 2) text;
          text = sub no_flags citation_format_pattern
                   (\<lambda>c. ''['' @ c ! 1 @ ''] ['' @ c ! 2 @ ''] '' @ c ! 3 @ '': '' @ c ! 4) text
      in text)"

subsection \<open>The references section\<close>

text \<open>The first pattern of the list that is found gives its group 1, stripped.\<close>

fun first_heading_match :: "regex list \<Rightarrow> string \<Rightarrow> string option" where
  "first_heading_match [] text = None"
| "first_heading_match (pattern # ps) text =
     (case search flags_IS pattern text of
        Some (pre, c, rest) \<Rightarrow> Some (strip (c ! 1))
      | None \<Rightarrow> first_heading_match ps text)"

text \<open>The loop over the lines: the lines that follow the first line with the word.\<close>

fun after_heading_line :: "string list \<Rightarrow> string option" where
  "after_heading_line [] = None"
| "after_heading_line (line # lines) =
     (if contains ''References'' line \<or> contains ''REFERENCES'' line
      then Some (strip (join_lines lines))
      else after_heading_line lines)"

definition find_references_section :: "string \<Rightarrow> string" where
  "find_references_section text =
     (case first_heading_match references_patterns text of
        Some found \<Rightarrow> found
      | None \<Rightarrow>
          (case after_heading_line (split_lines text) of
             Some found \<Rightarrow> found
           | None \<Rightarrow> text))"

subsection \<open>Counting occurrences\<close>

definition count_citation_occurrences :: "nat \<Rightarrow> string \<Rightarrow> nat" where
  "count_citation_occurrences citation_num text =
     length (findall no_flags (occurrence_pattern citation_num) text)"

subsection \<open>Extraction\<close>

record citation =
  citation_number :: nat
  citation_headline :: string
  citation_link :: string
  web_internal :: string
  total_occurrences :: nat
  vector_sql :: string

text \<open>A raw match: the texts of the number, the tag, the headline and the URL.\<close>

type_synonym raw_match = "string \<times> string \<times> string \<times> string"

definition matches1 :: "string \<Rightarrow> raw_match list" where
  "matches1 references_content =
     map (\<lambda>c. (c ! 1, c ! 2, c ! 3, c ! 4)) (findall flags_S citation_pattern references_content)"

definition citation_15_found :: "raw_match list \<Rightarrow> bool" where
  "citation_15_found ms = list_ex (\<lambda>match. fst match = ''15'') ms"

definition with_citation_15 :: "string \<Rightarrow> raw_match list" where
  "with_citation_15 references_content =
     (let ms = matches1 references_content in
      if \<not> citation_15_found ms
      then (case findall flags_S test_pattern references_content of
              [] \<Rightarrow> ms
            | t # ts \<Rightarrow> ms @ [(''15'', t ! 1, t ! 2, t ! 3)])
      else ms)"

definition clean_match :: "raw_match \<Rightarrow> raw_match" where
  "clean_match match =
     (case match of (citation_num, tag, headline, url) \<Rightarrow>
        let clean_url = sub no_flags spaces_pattern (\<lambda>c. []) (strip url);
            clean_url = (if contains ''Govtsource:'' clean_url
                         then replace ''Govtsource:'' [] clean_url else clean_url);
            clean_url = (case search no_flags url_pattern clean_url of
                           Some (pre, c, rest) \<Rightarrow> c ! 1
                         | None \<Rightarrow> clean_url)
        in (citation_num, tag, headline, clean_url))"

definition cleaned_matches :: "string \<Rightarrow> raw_match list" where
  "cleaned_matches references_content = map clean_match (with_citation_15 references_content)"

text \<open>The two clean-up steps that both passes apply to a headline and to a link.\<close>

definition clean_headline :: "string \<Rightarrow> string" where
  "clean_headline headline =
     map (\<lambda>c. if c = nl \<or> c = cr then CHR '' '' else c)
       (sub no_flags spaces_pattern (\<lambda>c. '' '') (strip headline))"

definition clean_link :: "string \<Rightarrow> string" where
  "clean_link url =
     filter (\<lambda>c. c \<noteq> nl \<and> c \<noteq> cr)
       (if url \<noteq> [] then sub no_flags spaces_pattern (\<lambda>c. []) (strip url) else [])"

definition citation_of_match :: "string \<Rightarrow> raw_match \<Rightarrow> citation" where
  "citation_of_match text match =
     (case match of (num, tag, headline0, url) \<Rightarrow>
        let citation_num = int_of_str num;
            headline = clean_headline headline0;
            url_clean = clean_link url;
            web_internal_label =
              (if contains ''Web'' tag then ''Web''
               else if contains ''Internal'' tag then ''Internal''
               else if url_clean \<noteq> [] then ''Web'' else ''Internal'');
            occurrences = count_citation_occurrences citation_num text;
            citation_type =
              (if web_internal_label = ''Internal'' then classify_citation_type url_clean
               else ''N/A'')
        in \<lparr>citation_number = citation_num, citation_headline = headline,
            citation_link = url_clean, web_internal = web_internal_label,
            total_occurrences = occurrences, vector_sql = citation_type\<rparr>)"

text \<open>
  \<open>citation_dict\<close> is a dictionary that keeps the order in which its keys came in: an
  association list, where writing to a key that is there replaces its value in place.
\<close>

definition choose_best :: "(nat \<times> citation) list \<Rightarrow> citation \<Rightarrow> (nat \<times> citation) list" where
  "choose_best citation_dict citation_data =
     (let citation_num = citation_number citation_data in
      case map_of citation_dict citation_num of
        None \<Rightarrow> AList.update citation_num citation_data citation_dict
      | Some current \<Rightarrow>
          if citation_link citation_data \<noteq> [] \<and> \<not> citation_link current \<noteq> []
          then AList.update citation_num citation_data citation_dict
          else if length (citation_headline citation_data) > length (citation_headline current)
          then AList.update citation_num citation_data citation_dict
          else citation_dict)"

definition citation_dict :: "string \<Rightarrow> string \<Rightarrow> (nat \<times> citation) list" where
  "citation_dict text references_content =
     foldl choose_best [] (map (citation_of_match text) (cleaned_matches references_content))"

subsection \<open>Filling the gaps\<close>

text \<open>
  \<open>seen_brackets\<close> is a set of numbers: a list without repetitions. The loops over it
  below take its members in ascending order; the order Python takes them in does not show
  in the result, which is sorted by number at the end and has one record for a number.
\<close>

definition bracket_matches :: "string \<Rightarrow> string list" where
  "bracket_matches references_content =
     map (\<lambda>c. c ! 1) (findall no_flags bracket_pattern references_content)"

definition seen_brackets :: "string \<Rightarrow> nat list" where
  "seen_brackets references_content =
     remdups (map int_of_str
       (filter (\<lambda>match. isdigit match \<and> int_of_str match \<le> 100)
          (bracket_matches references_content)))"

definition max_citation_num :: "string \<Rightarrow> nat" where
  "max_citation_num references_content =
     (if seen_brackets references_content \<noteq> [] then Max (set (seen_brackets references_content))
      else 0)"

definition all_brackets :: "string \<Rightarrow> nat list \<Rightarrow> nat list" where
  "all_brackets references_content seen_citations =
     fold (\<lambda>citation_num brackets.
             if citation_num \<notin> set seen_citations then List.insert citation_num brackets
             else brackets)
       [1..<max_citation_num references_content + 1] (seen_brackets references_content)"

text \<open>
  The loop over the context patterns, which stops at the first pattern that is found. Its
  result is the headline, the link and the label; a match of a pattern with three groups
  has three fields, one of a pattern with two groups has two.
\<close>

fun find_context :: "nat \<Rightarrow> string \<Rightarrow> regex list \<Rightarrow> string \<times> string \<times> string" where
  "find_context citation_num references_content [] = (''Missing citation'', [], ''Internal'')"
| "find_context citation_num references_content (pattern # patterns) =
     (case findall flags_IS pattern references_content of
        [] \<Rightarrow> find_context citation_num references_content patterns
      | context # others \<Rightarrow>
          if groups pattern = 3 then
            (strip (context ! 2),
             (if context ! 3 \<noteq> [] then strip (context ! 3) else []),
             (if contains ''Web'' (context ! 1) then ''Web'' else ''Internal''))
          else if groups pattern = 2 then
            (strip (context ! 2),
             (case findall flags_IS (next_line_pattern citation_num) references_content of
                next_line # others \<Rightarrow> strip (next_line ! 3)
              | [] \<Rightarrow>
                  (case findall flags_IS (simple_pattern citation_num) references_content of
                     simple # others \<Rightarrow> strip (simple ! 3)
                   | [] \<Rightarrow> [])),
             (if contains ''Web'' (context ! 1) then ''Web'' else ''Internal''))
          else (''Missing citation'', [], ''Internal''))"

text \<open>The headline that the quality check looks at, and the check.\<close>

definition gap_headline :: "string \<Rightarrow> nat \<Rightarrow> string" where
  "gap_headline references_content citation_num =
     fst (find_context citation_num references_content (citation_context_patterns citation_num))"

definition skipped :: "string \<Rightarrow> bool" where
  "skipped headline = (length (strip headline) < 3 \<or> isdigit (strip headline))"

text \<open>The record for a number that the first pass has not given, if the check lets it pass.\<close>

definition gap_record :: "string \<Rightarrow> string \<Rightarrow> nat \<Rightarrow> citation option" where
  "gap_record text references_content citation_num =
     (case find_context citation_num references_content (citation_context_patterns citation_num) of
        (headline, link, web_internal_label) \<Rightarrow>
          if skipped headline then None
          else Some \<lparr>citation_number = citation_num,
                     citation_headline = clean_headline headline,
                     citation_link = clean_link link,
                     web_internal = web_internal_label,
                     total_occurrences = count_citation_occurrences citation_num text,
                     vector_sql = classify_citation_type (clean_link link)\<rparr>)"

fun gap_loop :: "string \<Rightarrow> string \<Rightarrow> nat list \<Rightarrow> nat list \<Rightarrow> citation list \<Rightarrow> citation list" where
  "gap_loop text references_content [] seen_citations citations = citations"
| "gap_loop text references_content (citation_num # nums) seen_citations citations =
     (if citation_num \<notin> set seen_citations
      then (case gap_record text references_content citation_num of
              None \<Rightarrow>
                gap_loop text references_content nums (citation_num # seen_citations) citations
            | Some citation_data \<Rightarrow>
                gap_loop text references_content nums (citation_num # seen_citations)
                  (citations @ [citation_data]))
      else gap_loop text references_content nums seen_citations citations)"

subsection \<open>The whole extraction\<close>

definition parsed_citations :: "string \<Rightarrow> citation list" where
  "parsed_citations text = map snd (citation_dict text (find_references_section text))"

definition extract_citations_directly :: "string \<Rightarrow> citation list" where
  "extract_citations_directly text =
     (let references_content = find_references_section text;
          citations = parsed_citations text;
          seen_citations = map citation_number citations;
          brackets = all_brackets references_content seen_citations;
          citations = gap_loop text references_content (sort brackets) seen_citations citations
      in sort_key citation_number citations)"

subsection \<open>The validation of the totals\<close>

definition occurrences_of :: "citation list \<Rightarrow> nat" where
  "occurrences_of cs = sum_list (map total_occurrences cs)"

definition unique_internal_count :: "citation list \<Rightarrow> nat" where
  "unique_internal_count citations =
     length (filter (\<lambda>c. web_internal c = ''Internal'') citations)"

definition total_internal_occurrences :: "citation list \<Rightarrow> nat" where
  "total_internal_occurrences citations =
     occurrences_of (filter (\<lambda>c. web_internal c = ''Internal'') citations)"

definition internal_vector_citations :: "citation list \<Rightarrow> citation list" where
  "internal_vector_citations citations =
     filter (\<lambda>c. web_internal c = ''Internal'' \<and> vector_sql c = ''Vector'') citations"

definition internal_sql_citations :: "citation list \<Rightarrow> citation list" where
  "internal_sql_citations citations =
     filter (\<lambda>c. web_internal c = ''Internal'' \<and> vector_sql c = ''SQL'') citations"

definition internal_total_check :: "citation list \<Rightarrow> bool" where
  "internal_total_check citations =
     (total_internal_occurrences citations =
      occurrences_of (internal_sql_citations citations) +
      occurrences_of (internal_vector_citations citations))"

definition internal_unique_check :: "citation list \<Rightarrow> bool" where
  "internal_unique_check citations =
     (unique_internal_count citations =
      length (internal_sql_citations citations) + length (internal_vector_citations citations))"

text \<open>The branch of \<open>main\<close> that reports a validation error.\<close>

definition validation_error :: "citation list \<Rightarrow> bool" where
  "validation_error citations =
     (\<not> internal_total_check citations \<or> \<not> internal_unique_check citations)"

section \<open>Notions used in the statements\<close>

text \<open>
  A dictionary with the records under their own numbers: no key twice, and every record
  under the key that is its number.
\<close>

definition keyed :: "(nat \<times> citation) list \<Rightarrow> bool" where
  "keyed d = (distinct (map fst d) \<and> (\<forall>(k, v) \<in> set d. citation_number v = k))"

text \<open>The numbers for which the gap filler adds a record, in the order of its loop.\<close>

definition gap_numbers :: "string \<Rightarrow> nat list" where
  "gap_numbers text =
     (let refs = find_references_section text;
          seen = map citation_number (parsed_citations text)
      in filter (\<lambda>n. n \<notin> set seen \<and> gap_record text refs n \<noteq> None)
           (sort (all_brackets refs seen)))"

text \<open>A document with a heading and two entries, the second number first.\<close>

definition two_entries :: string where
  "two_entries = ''References'' @ [nl] @ ''[2] [Internal] Two: https://b.org'' @ [nl] @
     ''[1] [Web] One: https://a.org''"

text \<open>A line with the heading word, as the loop over the lines tests it.\<close>

definition heading_word :: "string \<Rightarrow> bool" where
  "heading_word line = (contains ''References'' line \<or> contains ''REFERENCES'' line)"

text \<open>
  Following the specification, not the program: the lines after the last line with the
  heading word.
\<close>

fun spec_after_last_heading_line :: "string list \<Rightarrow> string option" where
  "spec_after_last_heading_line [] = None"
| "spec_after_last_heading_line (line # lines) =
     (case spec_after_last_heading_line lines of
        Some found \<Rightarrow> Some found
      | None \<Rightarrow> if heading_word line then Some (join_lines lines) else None)"

text \<open>
  Following the specification, not the program: a headline with fewer than three
  characters that are not spaces, or with digits only.
\<close>

definition spec_skipped :: "string \<Rightarrow> bool" where
  "spec_skipped headline =
     (length (filter (\<lambda>c. \<not> isspace c) (strip headline)) < 3 \<or> isdigit (strip headline))"

text \<open>Documents for the examples.\<close>

definition two_heading_lines :: string where
  "two_heading_lines =
     ''References: a'' @ [nl] @ ''foo'' @ [nl] @ ''References: b'' @ [nl] @ ''bar''"

definition nested_entry :: string where
  "nested_entry = ''[1] [Web] A [2] [Web] Title: https://x.com''"

definition nested_short_entry :: string where
  "nested_short_entry = ''[1] [Web] A [2] [Web] a b: https://x.com''"

definition repeated_entry :: string where
  "repeated_entry = ''[1] [Web] Ab: https://a.com'' @ [nl] @ ''[1] [Web] Longer headline: ''"

definition zero_padded_15 :: string where
  "zero_padded_15 = ''[015] [Web] A: x [15] [Web] Bcd: https://x.com''"

definition plain_15 :: string where
  "plain_15 = ''[15] [Web] Fifteen: https://x.com''"

text \<open>The items end with the end of group 0, entered at the text \<open>s0\<close>.\<close>

fun closes0 :: "item list \<Rightarrow> string \<Rightarrow> bool" where
  "closes0 [] s0 = False"
| "closes0 [i] s0 = (i = Close 0 s0)"
| "closes0 (i # j # k) s0 = closes0 (j # k) s0"

text \<open>
  Following the specification, not the program: the number of occurrences of a token in a
  text that do not overlap, counted from the left.
\<close>

function spec_count_token :: "string \<Rightarrow> string \<Rightarrow> nat" where
  "spec_count_token tok [] = 0"
| "spec_count_token tok (x # xs) =
     (if tok \<noteq> [] \<and> startswith tok (x # xs)
      then Suc (spec_count_token tok (drop (length tok) (x # xs)))
      else spec_count_token tok xs)"
  by pat_completeness auto
termination
  by (relation "measure (\<lambda>(tok, s). length s)") (auto simp: neq_Nil_conv)

text \<open>Scenario A of the specification: one entry, cited twice in the body.\<close>

definition scenario_a :: string where
  "scenario_a = ''See [1] and [1].'' @ [nl] @ ''References'' @ [nl] @
     ''[1] [Web] Example Title: https://example.com''"

section \<open>Properties\<close>

lemma classify_citation_type_cases:
  "classify_citation_type u = ''SQL'' \<or> classify_citation_type u = ''Vector''"
  by (simp add: classify_citation_type_def)

lemma set_update_subset: "set (AList.update k v al) \<subseteq> insert (k, v) (set al)"
  by (induction al) auto

lemma keyed_update:
  assumes "keyed d"
  shows "keyed (AList.update (citation_number r) r d)"
proof -
  have "set (AList.update (citation_number r) r d) \<subseteq> insert (citation_number r, r) (set d)"
    by (rule set_update_subset)
  with assms show ?thesis
    unfolding keyed_def by (auto simp: distinct_update)
qed

lemma keyed_choose_best: "keyed d \<Longrightarrow> keyed (choose_best d r)"
  by (auto simp: choose_best_def Let_def keyed_update split: option.splits)

lemma values_choose_best: "snd ` set (choose_best d r) \<subseteq> insert r (snd ` set d)"
proof -
  have "snd ` set (AList.update (citation_number r) r d) \<subseteq> insert r (snd ` set d)"
    using set_update_subset [of "citation_number r" r d] by force
  then show ?thesis
    by (auto simp: choose_best_def Let_def split: option.splits)
qed

lemma keys_choose_best:
  "fst ` set (choose_best d r) = insert (citation_number r) (fst ` set d)"
proof (cases "map_of d (citation_number r)")
  case None
  then show ?thesis by (simp add: choose_best_def dom_update)
next
  case (Some cur)
  then have "(citation_number r, cur) \<in> set d"
    by (rule map_of_SomeD)
  then have "citation_number r \<in> fst ` set d"
    by force
  then have "insert (citation_number r) (fst ` set d) = fst ` set d"
    by (rule insert_absorb)
  with Some show ?thesis
    by (simp add: choose_best_def Let_def dom_update)
qed

lemma keyed_foldl: "keyed d \<Longrightarrow> keyed (foldl choose_best d rs)"
  by (induction rs arbitrary: d) (auto simp: keyed_choose_best)

lemma values_foldl: "snd ` set (foldl choose_best d rs) \<subseteq> snd ` set d \<union> set rs"
proof (induction rs arbitrary: d)
  case Nil
  then show ?case by simp
next
  case (Cons r rs)
  show ?case using Cons.IH [of "choose_best d r"] values_choose_best [of d r] by auto
qed

lemma keys_foldl:
  "fst ` set (foldl choose_best d rs) = fst ` set d \<union> citation_number ` set rs"
  by (induction rs arbitrary: d) (auto simp: keys_choose_best)

lemma keyed_numbers: "keyed d \<Longrightarrow> map citation_number (map snd d) = map fst d"
  by (induction d) (auto simp: keyed_def)

lemma keyed_citation_dict: "keyed (citation_dict text refs)"
  unfolding citation_dict_def by (rule keyed_foldl) (simp add: keyed_def)

lemma distinct_parsed: "distinct (map citation_number (parsed_citations text))"
proof -
  let ?d = "citation_dict text (find_references_section text)"
  have k: "keyed ?d" by (rule keyed_citation_dict)
  have "map citation_number (parsed_citations text) = map fst ?d"
    unfolding parsed_citations_def by (rule keyed_numbers [OF k])
  with k show ?thesis by (simp add: keyed_def)
qed

lemma parsed_from_match:
  assumes "r \<in> set (parsed_citations text)"
  shows "\<exists>match. r = citation_of_match text match"
proof -
  from assms have "r \<in> snd ` set (citation_dict text (find_references_section text))"
    by (simp add: parsed_citations_def)
  then have "r \<in> set (map (citation_of_match text) (cleaned_matches (find_references_section text)))"
    using values_foldl [of "[]"] unfolding citation_dict_def by fastforce
  then show ?thesis by auto
qed

lemma parsed_numbers:
  "citation_number ` set (parsed_citations text) =
   citation_number ` citation_of_match text ` set (cleaned_matches (find_references_section text))"
proof -
  let ?d = "citation_dict text (find_references_section text)"
  have "citation_number ` set (parsed_citations text) = set (map citation_number (map snd ?d))"
    by (simp add: parsed_citations_def image_image)
  also have "\<dots> = set (map fst ?d)"
    by (simp only: keyed_numbers [OF keyed_citation_dict])
  also have "\<dots> = fst ` set ?d"
    by simp
  also have "\<dots> = citation_number ` citation_of_match text ` set (cleaned_matches (find_references_section text))"
    unfolding citation_dict_def by (simp add: keys_foldl)
  finally show ?thesis .
qed

lemma gap_record_number:
  "gap_record text refs n = Some r \<Longrightarrow> citation_number r = n"
  by (auto simp: gap_record_def split: prod.splits if_splits)

lemma gap_record_None: "gap_record text refs n = None \<longleftrightarrow> skipped (gap_headline refs n)"
  by (auto simp: gap_record_def gap_headline_def split: prod.splits)

lemma gap_loop_numbers:
  "distinct ns \<Longrightarrow>
   map citation_number (gap_loop text refs ns seen cs) =
   map citation_number cs @ filter (\<lambda>n. n \<notin> set seen \<and> gap_record text refs n \<noteq> None) ns"
proof (induction ns arbitrary: seen cs)
  case Nil
  then show ?case by simp
next
  case (Cons n ns)
  have eq: "filter (\<lambda>k. k \<notin> set (n # seen) \<and> gap_record text refs k \<noteq> None) ns =
            filter (\<lambda>k. k \<notin> set seen \<and> gap_record text refs k \<noteq> None) ns"
    using Cons.prems by (intro filter_cong) auto
  show ?case
  proof (cases "n \<in> set seen")
    case True
    with Cons show ?thesis by simp
  next
    case False
    show ?thesis
    proof (cases "gap_record text refs n")
      case None
      with False Cons eq show ?thesis by simp
    next
      case (Some r)
      with False Cons eq gap_record_number [OF Some] show ?thesis by simp
    qed
  qed
qed

lemma gap_loop_set:
  "set (gap_loop text refs ns seen cs) \<subseteq>
   set cs \<union> {r. \<exists>n. gap_record text refs n = Some r}"
proof (induction ns arbitrary: seen cs)
  case Nil
  then show ?case by simp
next
  case (Cons n ns)
  show ?case
  proof (cases "n \<in> set seen")
    case True
    with Cons.IH [of seen cs] show ?thesis by simp
  next
    case False
    show ?thesis
    proof (cases "gap_record text refs n")
      case None
      with False Cons.IH [of "n # seen" cs] show ?thesis by simp
    next
      case (Some r)
      with False Cons.IH [of "n # seen" "cs @ [r]"] show ?thesis by auto
    qed
  qed
qed

lemma all_brackets_fold:
  "set (fold (\<lambda>n b. if n \<notin> S then List.insert n b else b) xs b0) = set b0 \<union> {n \<in> set xs. n \<notin> S}"
  by (induction xs arbitrary: b0) auto

lemma distinct_fold_insert:
  "distinct b0 \<Longrightarrow> distinct (fold (\<lambda>n b. if n \<notin> S then List.insert n b else b) xs b0)"
  by (induction xs arbitrary: b0) auto

lemma set_all_brackets:
  "set (all_brackets refs seen) =
   set (seen_brackets refs) \<union> {n. 1 \<le> n \<and> n \<le> max_citation_num refs \<and> n \<notin> set seen}"
  unfolding all_brackets_def by (auto simp: all_brackets_fold)

lemma distinct_all_brackets: "distinct (all_brackets refs seen)"
  unfolding all_brackets_def by (rule distinct_fold_insert) (simp add: seen_brackets_def)

lemma map_insort_key: "map f (insort_key f x xs) = insort (f x) (map f xs)"
  by (induction xs) auto

lemma map_sort_key: "map f (sort_key f xs) = sort (map f xs)"
  by (induction xs) (auto simp: map_insort_key)

lemma extract_numbers:
  "map citation_number (extract_citations_directly text) =
   sort (map citation_number (parsed_citations text) @ gap_numbers text)"
proof -
  let ?refs = "find_references_section text"
  let ?seen = "map citation_number (parsed_citations text)"
  have "distinct (sort (all_brackets ?refs ?seen))"
    by (simp add: distinct_all_brackets)
  then have "map citation_number
      (gap_loop text ?refs (sort (all_brackets ?refs ?seen)) ?seen (parsed_citations text)) =
      ?seen @ gap_numbers text"
    by (simp add: gap_loop_numbers gap_numbers_def Let_def)
  then show ?thesis
    by (simp add: extract_citations_directly_def Let_def map_sort_key)
qed

lemma distinct_gap_numbers: "distinct (gap_numbers text)"
  by (simp add: gap_numbers_def Let_def distinct_all_brackets)

lemma gap_numbers_not_parsed:
  "set (gap_numbers text) \<inter> citation_number ` set (parsed_citations text) = {}"
  by (auto simp: gap_numbers_def Let_def)

text \<open>
  Claim C6. For every input text, the citation numbers of the records of the result are
  pairwise distinct, and the result is in ascending order of citation number.
\<close>

theorem numbers_distinct_sorted:
  "distinct (map citation_number (extract_citations_directly text)) \<and>
   sorted (map citation_number (extract_citations_directly text))"
proof -
  have "distinct (map citation_number (parsed_citations text) @ gap_numbers text)"
    using distinct_parsed [of "text"] distinct_gap_numbers [of "text"]
      gap_numbers_not_parsed [of "text"]
    by auto
  then show ?thesis
    by (simp only: extract_numbers distinct_sort sorted_sort)
qed

theorem numbers_distinct_sorted_witness:
  "map citation_number (extract_citations_directly two_entries) = [1, 2] \<and>
   distinct (map citation_number (extract_citations_directly two_entries)) \<and>
   sorted (map citation_number (extract_citations_directly two_entries))"
proof -
  have "map citation_number (extract_citations_directly two_entries) = [1, 2]"
    by code_simp
  then show ?thesis
    using numbers_distinct_sorted [of two_entries] by simp
qed

lemma extract_set:
  "set (extract_citations_directly text) \<subseteq>
   set (parsed_citations text) \<union> {r. \<exists>n. gap_record text (find_references_section text) n = Some r}"
  unfolding extract_citations_directly_def Let_def set_sort
  by (rule gap_loop_set)

lemma citation_of_match_fields:
  "citation_number (citation_of_match text (num, tag, headline, url)) = int_of_str num"
  "total_occurrences (citation_of_match text (num, tag, headline, url)) =
     count_citation_occurrences (int_of_str num) text"
  by (simp_all add: citation_of_match_def Let_def)

lemma citation_of_match_count:
  "total_occurrences (citation_of_match text match) =
   count_citation_occurrences (citation_number (citation_of_match text match)) text"
  by (cases match) (simp add: citation_of_match_fields)

lemma gap_record_count:
  "gap_record text refs n = Some r \<Longrightarrow>
   total_occurrences r = count_citation_occurrences (citation_number r) text"
  by (auto simp: gap_record_def split: prod.splits if_splits)

lemma extract_count:
  assumes "r \<in> set (extract_citations_directly text)"
  shows "total_occurrences r = count_citation_occurrences (citation_number r) text"
proof -
  from assms extract_set consider
    "r \<in> set (parsed_citations text)" |
    n where "gap_record text (find_references_section text) n = Some r"
    by blast
  then show ?thesis
  proof cases
    case 1
    then obtain match where "r = citation_of_match text match"
      using parsed_from_match by blast
    then show ?thesis by (simp add: citation_of_match_count)
  next
    case 2
    then show ?thesis by (rule gap_record_count)
  qed
qed

lemma citation_of_match_classified:
  "web_internal (citation_of_match text match) = ''Internal'' \<Longrightarrow>
   vector_sql (citation_of_match text match) = ''SQL'' \<or>
   vector_sql (citation_of_match text match) = ''Vector''"
  using classify_citation_type_cases
  by (cases match) (simp add: citation_of_match_def Let_def)

lemma citation_of_match_web:
  "(vector_sql (citation_of_match text match) = ''N/A'') =
   (web_internal (citation_of_match text match) = ''Web'')"
  by (cases match) (simp add: citation_of_match_def Let_def classify_citation_type_def)

lemma gap_record_category:
  "gap_record text refs n = Some r \<Longrightarrow>
   vector_sql r = classify_citation_type (citation_link r)"
  by (auto simp: gap_record_def split: prod.splits if_splits)

lemma gap_record_classified:
  "gap_record text refs n = Some r \<Longrightarrow> vector_sql r = ''SQL'' \<or> vector_sql r = ''Vector''"
  using classify_citation_type_cases [of "citation_link r"]
  by (simp add: gap_record_category)

lemma extract_classified:
  assumes "r \<in> set (extract_citations_directly text)" and "web_internal r = ''Internal''"
  shows "vector_sql r = ''SQL'' \<or> vector_sql r = ''Vector''"
proof -
  from assms(1) extract_set consider
    "r \<in> set (parsed_citations text)" |
    n where "gap_record text (find_references_section text) n = Some r"
    by blast
  then show ?thesis
  proof cases
    case 1
    then obtain match where "r = citation_of_match text match"
      using parsed_from_match by blast
    with assms(2) show ?thesis by (simp add: citation_of_match_classified)
  next
    case 2
    then show ?thesis by (rule gap_record_classified)
  qed
qed

lemma split_internal_length:
  assumes "\<And>c. c \<in> set cs \<Longrightarrow> web_internal c = ''Internal'' \<Longrightarrow>
             vector_sql c = ''SQL'' \<or> vector_sql c = ''Vector''"
  shows "unique_internal_count cs =
         length (internal_sql_citations cs) + length (internal_vector_citations cs)"
  using assms
  by (induction cs)
     (auto simp: unique_internal_count_def internal_sql_citations_def
        internal_vector_citations_def)

lemma split_internal_occurrences:
  assumes "\<And>c. c \<in> set cs \<Longrightarrow> web_internal c = ''Internal'' \<Longrightarrow>
             vector_sql c = ''SQL'' \<or> vector_sql c = ''Vector''"
  shows "total_internal_occurrences cs =
         occurrences_of (internal_sql_citations cs) +
         occurrences_of (internal_vector_citations cs)"
  using assms
  by (induction cs)
     (auto simp: total_internal_occurrences_def occurrences_of_def internal_sql_citations_def
        internal_vector_citations_def)

text \<open>
  Claim C10. For every input text both consistency checks hold of the result, so the branch
  that reports a validation error is never taken: the Internal records are those classified
  SQL and those classified Vector.
\<close>

theorem validation_always_passes:
  "internal_total_check (extract_citations_directly text) \<and>
   internal_unique_check (extract_citations_directly text) \<and>
   \<not> validation_error (extract_citations_directly text)"
  using split_internal_length [of "extract_citations_directly text"]
    split_internal_occurrences [of "extract_citations_directly text"]
    extract_classified [of _ "text"]
  by (simp add: validation_error_def internal_total_check_def internal_unique_check_def)

theorem validation_always_passes_witness:
  "unique_internal_count (extract_citations_directly two_entries) = 1 \<and>
   internal_total_check (extract_citations_directly two_entries) \<and>
   internal_unique_check (extract_citations_directly two_entries) \<and>
   \<not> validation_error (extract_citations_directly two_entries)"
proof -
  have "unique_internal_count (extract_citations_directly two_entries) = 1"
    by code_simp
  then show ?thesis
    using validation_always_passes [of two_entries] by simp
qed

lemma set_gap_numbers:
  "set (gap_numbers text) =
   {n \<in> set (all_brackets (find_references_section text)
               (map citation_number (parsed_citations text))).
      n \<notin> citation_number ` set (parsed_citations text) \<and>
      \<not> skipped (gap_headline (find_references_section text) n)}"
  by (auto simp: gap_numbers_def Let_def gap_record_None)

lemma extract_number_set:
  "citation_number ` set (extract_citations_directly text) =
   citation_number ` set (parsed_citations text) \<union> set (gap_numbers text)"
proof -
  have "citation_number ` set (extract_citations_directly text) =
        set (map citation_number (extract_citations_directly text))"
    by simp
  also have "\<dots> = set (map citation_number (parsed_citations text) @ gap_numbers text)"
    by (simp only: extract_numbers set_sort)
  finally show ?thesis by simp
qed

text \<open>
  Claim C5. Let the maximum be that of the bracket numbers up to 100 in the references
  section (0 if there are none). Every number from 1 to the maximum has a record in the
  result, unless the first pass gave none for it and the headline that the gap filler found
  for it failed the quality check; then it has no record.
\<close>

theorem record_for_every_number_up_to_max:
  assumes "1 \<le> n" and "n \<le> max_citation_num (find_references_section text)"
  shows "(n \<in> citation_number ` set (extract_citations_directly text)) =
         (n \<in> citation_number ` set (parsed_citations text) \<or>
          \<not> skipped (gap_headline (find_references_section text) n))"
  using assms by (auto simp: extract_number_set set_gap_numbers set_all_brackets)

theorem record_for_every_number_up_to_max_witness:
  "max_citation_num (find_references_section nested_entry) = 2 \<and>
   map citation_number (parsed_citations nested_entry) = [1] \<and>
   \<not> skipped (gap_headline (find_references_section nested_entry) 2) \<and>
   2 \<in> citation_number ` set (extract_citations_directly nested_entry)"
proof -
  have a: "max_citation_num (find_references_section nested_entry) = 2"
    by code_simp
  have b: "map citation_number (parsed_citations nested_entry) = [1]"
    by code_simp
  have c: "\<not> skipped (gap_headline (find_references_section nested_entry) 2)"
    by code_simp
  have "(1::nat) \<le> 2" and "2 \<le> max_citation_num (find_references_section nested_entry)"
    using a by simp_all
  from record_for_every_number_up_to_max [OF this] a b c show ?thesis
    by simp
qed

text \<open>
  Claim C4, amended. For every number that the gap filler works on (a number of its set
  that the first pass gave no record for), a record is added exactly when the headline,
  stripped of the white space at its ends, has at least three characters (the spaces inside
  it count) and does not consist of digits only.
\<close>

theorem gap_record_added_unless_skipped:
  assumes "n \<in> set (all_brackets (find_references_section text)
                       (map citation_number (parsed_citations text)))"
    and "n \<notin> set (map citation_number (parsed_citations text))"
  shows "(n \<in> citation_number ` set (extract_citations_directly text)) =
         (\<not> (length (strip (gap_headline (find_references_section text) n)) < 3 \<or>
             isdigit (strip (gap_headline (find_references_section text) n))))"
  using assms by (auto simp: extract_number_set set_gap_numbers skipped_def)


text \<open>
  Claim C4 as stated fails: the headline \<open>a b\<close> of number 2 has two characters that are
  not spaces, so the claim has it discarded, and the result has a record for number 2.
\<close>

theorem spec_skipped_record_added:
  "map citation_number (parsed_citations nested_short_entry) = [1] \<and>
   gap_headline (find_references_section nested_short_entry) 2 = ''a b'' \<and>
   spec_skipped ''a b'' \<and>
   map citation_number (extract_citations_directly nested_short_entry) = [1, 2]"
  by code_simp

theorem gap_record_added_unless_skipped_witness:
  "2 \<in> set (all_brackets (find_references_section nested_short_entry)
              (map citation_number (parsed_citations nested_short_entry))) \<and>
   2 \<notin> set (map citation_number (parsed_citations nested_short_entry)) \<and>
   length (strip (gap_headline (find_references_section nested_short_entry) 2)) = 3 \<and>
   \<not> isdigit (strip (gap_headline (find_references_section nested_short_entry) 2)) \<and>
   2 \<in> citation_number ` set (extract_citations_directly nested_short_entry)"
proof -
  have a: "2 \<in> set (all_brackets (find_references_section nested_short_entry)
              (map citation_number (parsed_citations nested_short_entry)))"
    by code_simp
  have b: "2 \<notin> set (map citation_number (parsed_citations nested_short_entry))"
    by code_simp
  have c: "length (strip (gap_headline (find_references_section nested_short_entry) 2)) = 3"
    by code_simp
  have d: "\<not> isdigit (strip (gap_headline (find_references_section nested_short_entry) 2))"
    by code_simp
  from gap_record_added_unless_skipped [OF a b] a b c d show ?thesis
    by simp
qed

text \<open>
  Claim C1 (defect in the program). The gap filler classifies every record by its link,
  also a record whose origin is Web: here the record for number 2 has the origin Web and
  the category Vector, not N/A.
\<close>

theorem gap_filled_web_record_classified:
  "extract_citations_directly nested_entry =
   [\<lparr>citation_number = 1, citation_headline = ''A [2] [Web] Title'',
      citation_link = ''https://x.com'', web_internal = ''Web'',
      total_occurrences = 1, vector_sql = ''N/A''\<rparr>,
    \<lparr>citation_number = 2, citation_headline = ''Title'',
      citation_link = ''https://x.com'', web_internal = ''Web'',
      total_occurrences = 1, vector_sql = ''Vector''\<rparr>]"
  by code_simp

text \<open>
  Claim C2 (defect in the program). The second candidate for number 1 has no link and the
  longer headline; it replaces the first candidate, which has a link.
\<close>

theorem unlinked_candidate_replaces_linked:
  "cleaned_matches (find_references_section repeated_entry) =
     [(''1'', ''Web'', ''Ab'', ''https://a.com''), (''1'', ''Web'', ''Longer headline'', [])] \<and>
   extract_citations_directly repeated_entry =
     [\<lparr>citation_number = 1, citation_headline = ''Longer headline'',
        citation_link = [], web_internal = ''Web'',
        total_occurrences = 2, vector_sql = ''N/A''\<rparr>]"
  by code_simp

lemma startswith_iff: "startswith p s \<longleftrightarrow> (\<exists>q. s = p @ q)"
  by (induction p s rule: startswith.induct) auto

lemma contains_iff: "contains t s \<longleftrightarrow> (\<exists>p q. s = p @ t @ q)"
proof (induction s)
  case Nil
  then show ?case by auto
next
  case (Cons x xs)
  show ?case
  proof
    assume "contains t (x # xs)"
    then consider "startswith t (x # xs)" | "contains t xs" by auto
    then show "\<exists>p q. x # xs = p @ t @ q"
    proof cases
      case 1
      then obtain q where "x # xs = t @ q" by (auto simp: startswith_iff)
      then have "x # xs = [] @ t @ q" by simp
      then show ?thesis by blast
    next
      case 2
      then obtain p q where "xs = p @ t @ q" using Cons.IH by auto
      then have "x # xs = (x # p) @ t @ q" by simp
      then show ?thesis by blast
    qed
  next
    assume "\<exists>p q. x # xs = p @ t @ q"
    then obtain p q where pq: "x # xs = p @ t @ q" by auto
    show "contains t (x # xs)"
    proof (cases p)
      case Nil
      with pq have "\<exists>q. x # xs = t @ q" by auto
      then have "startswith t (x # xs)" by (simp only: startswith_iff)
      then show ?thesis by simp
    next
      case (Cons y ys)
      with pq have "xs = ys @ t @ q" by simp
      then have "contains t xs" using Cons.IH by blast
      then show ?thesis by simp
    qed
  qed
qed

lemma split_lines_nonempty: "split_lines s \<noteq> []"
  by (induction s) (auto split: list.splits)

lemma join_lines_Cons: "join_lines ((x # l) # ls) = x # join_lines (l # ls)"
  by (cases ls) auto

lemma join_split_lines: "join_lines (split_lines s) = s"
proof (induction s)
  case Nil
  then show ?case by simp
next
  case (Cons x xs)
  show ?case
  proof (cases "x = nl")
    case True
    with Cons split_lines_nonempty [of xs] show ?thesis
      by (cases "split_lines xs") auto
  next
    case False
    with Cons split_lines_nonempty [of xs] show ?thesis
      by (cases "split_lines xs") (auto simp: join_lines_Cons split: list.splits)
  qed
qed

lemma after_heading_line_first:
  "after_heading_line ls =
     (if \<exists>l \<in> set ls. heading_word l
      then Some (strip (join_lines (drop (Suc (length (takeWhile (\<lambda>l. \<not> heading_word l) ls))) ls)))
      else None)"
  by (induction ls) (auto simp: heading_word_def)

lemma first_heading_match_None:
  "\<forall>p \<in> set ps. search flags_IS p text = None \<Longrightarrow> first_heading_match ps text = None"
  by (induction ps) auto

text \<open>
  Claim C3, amended. When both heading patterns fail and some line has the word
  \<open>References\<close> or \<open>REFERENCES\<close>, the locator returns the lines after the FIRST such
  line, joined by newlines and stripped of the white space at both ends; when no line has
  the word it returns the input text unchanged.
\<close>

theorem fallback_takes_first_heading_line:
  assumes "\<forall>pattern \<in> set references_patterns. search flags_IS pattern text = None"
  shows "find_references_section text =
     (if \<exists>line \<in> set (split_lines text). heading_word line
      then strip (join_lines
             (drop (Suc (length (takeWhile (\<lambda>line. \<not> heading_word line) (split_lines text))))
                (split_lines text)))
      else text)"
  using first_heading_match_None [OF assms]
  by (simp add: find_references_section_def after_heading_line_first)

theorem fallback_takes_first_heading_line_witness:
  "list_all (\<lambda>pattern. search flags_IS pattern two_heading_lines = None) references_patterns \<and>
   list_ex heading_word (split_lines two_heading_lines) \<and>
   length (takeWhile (\<lambda>line. \<not> heading_word line) (split_lines two_heading_lines)) = 0 \<and>
   find_references_section two_heading_lines = ''foo'' @ [nl] @ ''References: b'' @ [nl] @ ''bar''"
proof -
  have a: "list_all (\<lambda>pattern. search flags_IS pattern two_heading_lines = None)
             references_patterns"
    by code_simp
  have b: "list_ex heading_word (split_lines two_heading_lines)"
    by code_simp
  have c: "length (takeWhile (\<lambda>line. \<not> heading_word line) (split_lines two_heading_lines)) = 0"
    by code_simp
  have d: "strip (join_lines (drop (Suc 0) (split_lines two_heading_lines))) =
           ''foo'' @ [nl] @ ''References: b'' @ [nl] @ ''bar''"
    by code_simp
  from a have a': "\<forall>pattern \<in> set references_patterns.
      search flags_IS pattern two_heading_lines = None"
    by (simp only: list_all_iff)
  from b have b': "\<exists>line \<in> set (split_lines two_heading_lines). heading_word line"
    by (simp only: list_ex_iff)
  from fallback_takes_first_heading_line [OF a'] a b b' c d show ?thesis
    by simp
qed

text \<open>
  Claim C3 as stated fails: both heading patterns fail on this text, the text after the
  last line with the word is \<open>bar\<close>, and the locator returns the three lines after the
  first line with the word.
\<close>

theorem fallback_not_after_last_heading_line:
  "first_heading_match references_patterns two_heading_lines = None \<and>
   spec_after_last_heading_line (split_lines two_heading_lines) = Some ''bar'' \<and>
   find_references_section two_heading_lines = ''foo'' @ [nl] @ ''References: b'' @ [nl] @ ''bar''"
  by code_simp

text \<open>
  Claim C8, amended. When a raw match has the number text \<open>15\<close>, the raw matches go to
  the cleaning as they are. When none has, the pattern for \<open>[15]\<close> is run on the
  references section, and its first match, if there is one, is added at the end of the raw
  matches as a candidate with the number text \<open>15\<close> and the tag, the headline and the
  URL part of that match, before the cleaning. A raw match written \<open>[015]\<close> does not
  count as one with the number text \<open>15\<close>.
\<close>

theorem recovery_of_15:
  "(''15'' \<in> fst ` set (matches1 refs) \<longrightarrow>
      cleaned_matches refs = map clean_match (matches1 refs)) \<and>
   (''15'' \<notin> fst ` set (matches1 refs) \<longrightarrow>
      cleaned_matches refs =
        (case findall flags_S test_pattern refs of
           [] \<Rightarrow> map clean_match (matches1 refs)
         | t # ts \<Rightarrow> map clean_match (matches1 refs) @ [clean_match (''15'', t ! 1, t ! 2, t ! 3)]))"
  by (force simp: cleaned_matches_def with_citation_15_def citation_15_found_def Let_def
      list_ex_iff split: list.splits)

theorem recovery_of_15_witness:
  "''15'' \<in> fst ` set (matches1 plain_15) \<and>
   cleaned_matches plain_15 = [(''15'', ''Web'', ''Fifteen'', ''https://x.com'')] \<and>
   ''15'' \<notin> fst ` set (matches1 zero_padded_15) \<and>
   findall flags_S test_pattern zero_padded_15 =
     [[''[15] [Web] Bcd: https://x.com'', ''Web'', ''Bcd'', ''https://x.com'']] \<and>
   cleaned_matches zero_padded_15 =
     [(''015'', ''Web'', ''A'', ''https://x.com''), (''15'', ''Web'', ''Bcd'', ''https://x.com'')]"
proof -
  have a: "''15'' \<in> fst ` set (matches1 plain_15)"
    by code_simp
  have b: "map clean_match (matches1 plain_15) = [(''15'', ''Web'', ''Fifteen'', ''https://x.com'')]"
    by code_simp
  have c: "''15'' \<notin> fst ` set (matches1 zero_padded_15)"
    by code_simp
  have d: "findall flags_S test_pattern zero_padded_15 =
     [[''[15] [Web] Bcd: https://x.com'', ''Web'', ''Bcd'', ''https://x.com'']]"
    by code_simp
  have e: "map clean_match (matches1 zero_padded_15) @
             [clean_match (''15'', ''Web'', ''Bcd'', ''https://x.com'')] =
     [(''015'', ''Web'', ''A'', ''https://x.com''), (''15'', ''Web'', ''Bcd'', ''https://x.com'')]"
    by code_simp
  from recovery_of_15 [of plain_15] recovery_of_15 [of zero_padded_15] a b c d e
  show ?thesis by simp
qed

text \<open>
  Claim C8 as stated fails: the only raw match has the number 15, written \<open>015\<close>, and
  the pattern for \<open>[15]\<close> is run all the same and adds a candidate.
\<close>

theorem rerun_with_number_15_present:
  "matches1 zero_padded_15 = [(''015'', ''Web'', ''A'', ''x [15] [Web] Bcd: https://x.com'')] \<and>
   int_of_str ''015'' = 15 \<and>
   with_citation_15 zero_padded_15 =
     [(''015'', ''Web'', ''A'', ''x [15] [Web] Bcd: https://x.com''),
      (''15'', ''Web'', ''Bcd'', ''https://x.com'')]"
  by code_simp

subsection \<open>What a match returns\<close>

lemma m_suffix: "m f k s c = Some (rest, c') \<Longrightarrow> suffix rest s"
proof (induction f k s c arbitrary: rest c' rule: m.induct)
  case (1 f s c)
  then show ?case by simp
next
  case (2 f i s0 k s c)
  then show ?case by simp
next
  case (3 f a k c)
  then show ?case by simp
next
  case (4 f a k x xs c)
  then show ?case by (simp add: suffix_Cons split: if_splits)
next
  case (5 f a k c)
  then show ?case by simp
next
  case (6 f a k x xs c)
  then show ?case by (auto simp: suffix_Cons split: if_splits option.splits)
next
  case (7 f a k c)
  then show ?case by simp
next
  case (8 f a k x xs c)
  then show ?case by (auto simp: suffix_Cons split: if_splits option.splits)
next
  case (9 f a k s c)
  then show ?case by simp
next
  case (10 f a k s c)
  then show ?case by simp
next
  case (11 f r k s c)
  then show ?case by (auto split: option.splits)
next
  case (12 f r1 r2 k s c)
  then show ?case by simp
next
  case (13 f r1 r2 k s c)
  then show ?case by (auto split: option.splits)
next
  case (14 f i r k s c)
  then show ?case by simp
next
  case (15 f r k s c)
  then show ?case by (auto split: option.splits)
next
  case (16 f k s c)
  then show ?case by (simp split: if_splits)
next
  case (17 f k s c)
  then show ?case by (simp split: if_splits)
qed

lemma closes0_R: "closes0 (R r # k) s0 = closes0 k s0"
  by (cases k) auto

lemma closes0_Close:
  "closes0 (Close i s1 # k) s0 = (if k = [] then i = 0 \<and> s1 = s0 else closes0 k s0)"
  by (cases k) auto

lemma m_length_caps_le:
  "m f k s c = Some (rest, c') \<Longrightarrow> length c \<le> length c' \<and> length c' \<le> length c"
proof (induction f k s c arbitrary: rest c' rule: m.induct)
  case (1 f s c)
  then show ?case by simp
next
  case (2 f i s0 k s c)
  then show ?case by simp
next
  case (3 f a k c)
  then show ?case by simp
next
  case (4 f a k x xs c)
  then show ?case by (simp split: if_splits)
next
  case (5 f a k c)
  then show ?case by simp
next
  case (6 f a k x xs c)
  then show ?case by (auto split: if_splits option.splits)
next
  case (7 f a k c)
  then show ?case by simp
next
  case (8 f a k x xs c)
  then show ?case by (auto split: if_splits option.splits)
next
  case (9 f a k s c)
  then show ?case by simp
next
  case (10 f a k s c)
  then show ?case by simp
next
  case (11 f r k s c)
  then show ?case by (auto split: option.splits)
next
  case (12 f r1 r2 k s c)
  then show ?case by simp
next
  case (13 f r1 r2 k s c)
  then show ?case by (auto split: option.splits)
next
  case (14 f i r k s c)
  then show ?case by simp
next
  case (15 f r k s c)
  then show ?case by (auto split: option.splits)
next
  case (16 f k s c)
  then show ?case by (simp split: if_splits)
next
  case (17 f k s c)
  then show ?case by (simp split: if_splits)
qed

lemma m_length_caps: "m f k s c = Some (rest, c') \<Longrightarrow> length c' = length c"
  using m_length_caps_le [of f k s c rest c'] by simp


lemma m_group0:
  "m f k s c = Some (rest, c') \<Longrightarrow> closes0 k s0 \<Longrightarrow> c \<noteq> [] \<Longrightarrow>
   c' ! 0 = take (length s0 - length rest) s0"
proof (induction f k s c arbitrary: rest c' rule: m.induct)
  case (1 f s c)
  then show ?case by (simp add: closes0_R closes0_Close)
next
  case (2 f i s0 k s c)
  then show ?case by (cases "k = []") (auto simp: closes0_R closes0_Close)
next
  case (3 f a k c)
  then show ?case by (simp add: closes0_R closes0_Close)
next
  case (4 f a k x xs c)
  then show ?case by (simp add: closes0_R closes0_Close split: if_splits)
next
  case (5 f a k c)
  then show ?case by (simp add: closes0_R closes0_Close)
next
  case (6 f a k x xs c)
  then show ?case by (auto simp: closes0_R closes0_Close split: if_splits option.splits)
next
  case (7 f a k c)
  then show ?case by (simp add: closes0_R closes0_Close)
next
  case (8 f a k x xs c)
  then show ?case by (auto simp: closes0_R closes0_Close split: if_splits option.splits)
next
  case (9 f a k s c)
  then show ?case by (simp add: closes0_R closes0_Close)
next
  case (10 f a k s c)
  then show ?case by (simp add: closes0_R closes0_Close)
next
  case (11 f r k s c)
  then show ?case by (auto simp: closes0_R closes0_Close split: option.splits)
next
  case (12 f r1 r2 k s c)
  then show ?case by (simp add: closes0_R closes0_Close)
next
  case (13 f r1 r2 k s c)
  then show ?case by (auto simp: closes0_R closes0_Close split: option.splits)
next
  case (14 f i r k s c)
  then show ?case by (cases "k = []") (auto simp: closes0_R closes0_Close)
next
  case (15 f r k s c)
  then show ?case by (auto simp: closes0_R closes0_Close split: option.splits)
next
  case (16 f k s c)
  then show ?case by (simp add: closes0_R closes0_Close split: if_splits)
next
  case (17 f k s c)
  then show ?case by (simp add: closes0_R closes0_Close split: if_splits)
qed

lemma match_at_sound:
  assumes "match_at f r s = Some (rest, c)"
  shows "s = c ! 0 @ rest"
proof -
  from assms have mm: "m f [R r, Close 0 s] s (replicate (Suc (groups r)) []) = Some (rest, c)"
    by (simp add: match_at_def)
  have "suffix rest s" by (rule m_suffix [OF mm])
  then obtain p where p: "s = p @ rest" by (auto simp: suffix_def)
  have "c ! 0 = take (length s - length rest) s"
    by (rule m_group0 [OF mm]) (simp_all add: closes0_R)
  with p show ?thesis by simp
qed

lemma search_sound: "search f r s = Some (pre, c, rest) \<Longrightarrow> s = pre @ c ! 0 @ rest"
proof (induction s arbitrary: pre)
  case Nil
  then show ?case by (auto split: option.splits dest: match_at_sound)
next
  case (Cons x xs)
  show ?case
  proof (cases "match_at f r (x # xs)")
    case None
    with Cons.prems obtain pre' where "search f r xs = Some (pre', c, rest)" "pre = x # pre'"
      by (auto split: option.splits)
    with Cons.IH show ?thesis by simp
  next
    case (Some a)
    with Cons.prems show ?thesis by (cases a) (auto dest: match_at_sound)
  qed
qed

lemma search_length:
  assumes "search f r s = Some (pre, c, rest)"
  shows "length s = length pre + length (c ! 0) + length rest"
proof -
  have "s = pre @ c ! 0 @ rest" by (rule search_sound [OF assms])
  then have "length s = length (pre @ c ! 0 @ rest)" by simp
  then show ?thesis by simp
qed

lemma findall_unfold:
  "findall f r s =
     (case search f r s of
        None \<Rightarrow> []
      | Some (pre, c, rest) \<Rightarrow>
          c # (if c ! 0 \<noteq> [] then findall f r rest
               else if rest \<noteq> [] then findall f r (tl rest) else []))"
proof (cases "search f r s")
  case None
  then show ?thesis by (simp add: findall.simps)
next
  case (Some a)
  obtain pre c rest where a: "a = (pre, c, rest)" by (cases a)
  have len: "length s = length pre + length (c ! 0) + length rest"
    using Some a by (intro search_length) simp
  have 1: "c ! 0 \<noteq> [] \<Longrightarrow> length rest < length s" using len by (cases "c ! 0") auto
  have 2: "rest \<noteq> [] \<Longrightarrow> length (tl rest) < length s" using len by (cases rest) auto
  show ?thesis using Some a 1 2 by (subst findall.simps) simp
qed

lemma sub_unfold:
  "sub f r repl s =
     (case search f r s of
        None \<Rightarrow> s
      | Some (pre, c, rest) \<Rightarrow>
          pre @ repl c @
          (if c ! 0 \<noteq> [] then sub f r repl rest
           else if rest \<noteq> [] then hd rest # sub f r repl (tl rest) else rest))"
proof (cases "search f r s")
  case None
  then show ?thesis by (simp add: sub.simps)
next
  case (Some a)
  obtain pre c rest where a: "a = (pre, c, rest)" by (cases a)
  have len: "length s = length pre + length (c ! 0) + length rest"
    using Some a by (intro search_length) simp
  have 1: "c ! 0 \<noteq> [] \<Longrightarrow> length rest < length s" using len by (cases "c ! 0") auto
  have 2: "rest \<noteq> [] \<Longrightarrow> length (tl rest) < length s" using len by (cases rest) auto
  show ?thesis using Some a 1 2 by (subst sub.simps) simp
qed

lemma startswith_take: "startswith tok s \<Longrightarrow> take (length tok) s = tok"
  by (induction tok s rule: startswith.induct) auto

lemma startswith_length: "startswith tok s \<Longrightarrow> length tok \<le> length s"
  by (induction tok s rule: startswith.induct) auto

lemma m_cat_lit:
  "tok \<noteq> [] \<Longrightarrow> \<not> ignorecase f \<Longrightarrow>
   m f (R (cat (lit tok)) # k) s c =
     (if startswith tok s then m f k (drop (length tok) s) c else None)"
proof (induction tok arbitrary: s rule: induct_list012)
  case 1
  then show ?case by simp
next
  case (2 a)
  then show ?case by (cases s) auto
next
  case (3 a b tok)
  then show ?case by (cases s) auto
qed

lemma groups_cat_lit: "groups (cat (lit tok)) = 0"
  by (induction tok rule: induct_list012) auto

lemma match_at_lit:
  assumes "tok \<noteq> []"
  shows "match_at no_flags (cat (lit tok)) s =
         (if startswith tok s then Some (drop (length tok) s, [tok]) else None)"
proof -
  have nf: "\<not> ignorecase no_flags" by (simp add: no_flags_def)
  have "match_at no_flags (cat (lit tok)) s =
        m no_flags (R (cat (lit tok)) # [Close 0 s]) s [[]]"
    by (simp add: match_at_def groups_cat_lit del: lit.simps)
  also have "\<dots> = (if startswith tok s
      then m no_flags [Close 0 s] (drop (length tok) s) [[]] else None)"
    by (rule m_cat_lit [OF assms nf])
  also have "\<dots> = (if startswith tok s then Some (drop (length tok) s, [tok]) else None)"
  proof (cases "startswith tok s")
    case True
    then have "length s - (length s - length tok) = length tok"
      using startswith_length [of tok s] by simp
    with True show ?thesis by (simp add: startswith_take)
  next
    case False
    then show ?thesis by simp
  qed
  finally show ?thesis .
qed

lemma search_lit_skip:
  assumes "tok \<noteq> []" and "\<not> startswith tok (x # xs)"
  shows "findall no_flags (cat (lit tok)) (x # xs) = findall no_flags (cat (lit tok)) xs"
proof (cases "search no_flags (cat (lit tok)) xs")
  case None
  with assms show ?thesis
    by (simp add: findall_unfold match_at_lit del: lit.simps)
next
  case (Some a)
  with assms show ?thesis
    by (cases a) (simp add: findall_unfold match_at_lit del: lit.simps)
qed

lemma findall_lit_count:
  assumes "tok \<noteq> []"
  shows "length (findall no_flags (cat (lit tok)) s) = spec_count_token tok s"
proof (induction s rule: length_induct)
  case (1 s)
  show ?case
  proof (cases s)
    case Nil
    with assms show ?thesis
      by (cases tok) (simp_all add: findall_unfold match_at_lit del: lit.simps)
  next
    case (Cons x xs)
    show ?thesis
    proof (cases "startswith tok (x # xs)")
      case True
      have "length (drop (length tok) (x # xs)) < length s"
        using assms Cons by (cases tok) auto
      with 1 have ih: "length (findall no_flags (cat (lit tok)) (drop (length tok) (x # xs))) =
                   spec_count_token tok (drop (length tok) (x # xs))"
        by blast
      from True assms Cons ih show ?thesis
        by (subst findall_unfold) (simp add: match_at_lit del: lit.simps)
    next
      case False
      have ih: "length (findall no_flags (cat (lit tok)) xs) = spec_count_token tok xs"
        using 1 Cons by simp
      from False assms Cons ih search_lit_skip [OF assms False] show ?thesis by simp
    qed
  qed
qed

lemma count_citation_occurrences_spec:
  "count_citation_occurrences n text = spec_count_token (''['' @ str_of_nat n @ '']'') text"
  unfolding count_citation_occurrences_def occurrence_pattern_def
  by (rule findall_lit_count) simp

text \<open>
  Claim C7. The occurrences of every record of the result, from the first pass or from the
  gap filler, are the occurrences of the token \<open>[n]\<close>, with \<open>n\<close> the number of the
  record, that do not overlap, counted in the whole text that was given, not in the
  references section.
\<close>

theorem occurrences_counted_in_whole_text:
  assumes "r \<in> set (extract_citations_directly text)"
  shows "total_occurrences r =
         spec_count_token (''['' @ str_of_nat (citation_number r) @ '']'') text"
  using extract_count [OF assms] by (simp only: count_citation_occurrences_spec)

theorem occurrences_counted_in_whole_text_witness:
  "extract_citations_directly scenario_a =
     [\<lparr>citation_number = 1, citation_headline = ''Example Title'',
        citation_link = ''https://example.com'', web_internal = ''Web'',
        total_occurrences = 3, vector_sql = ''N/A''\<rparr>] \<and>
   find_references_section scenario_a = ''[1] [Web] Example Title: https://example.com'' \<and>
   spec_count_token (''['' @ str_of_nat 1 @ '']'') scenario_a = 3"
proof -
  let ?r = "\<lparr>citation_number = 1, citation_headline = ''Example Title'',
        citation_link = ''https://example.com'', web_internal = ''Web'',
        total_occurrences = 3, vector_sql = ''N/A''\<rparr>"
  have e: "extract_citations_directly scenario_a = [?r]"
    by code_simp
  have f: "find_references_section scenario_a = ''[1] [Web] Example Title: https://example.com''"
    by code_simp
  have "?r \<in> set (extract_citations_directly scenario_a)"
    by (simp only: e list.set_intros)
  from occurrences_counted_in_whole_text [OF this] e f show ?thesis
    by simp
qed

end
